theory Spec2Isabelle
  imports Main "HOL-Library.Word"
begin

unbundle bit_operations_syntax

section \<open>The display surface\<close>

text \<open>
  The program (\<open>src/main.cpp\<close>) talks to the Windows GDI through \<open>SetPixel\<close>,
  \<open>GetPixel\<close>, \<open>GetDeviceCaps(hdc, HORZRES)\<close> and the colour macros \<open>RGB\<close>,
  \<open>GetRValue\<close>, \<open>GetGValue\<close>, \<open>GetBValue\<close>. None of them is part of the
  repository. A \<open>COLORREF\<close> is a 32-bit value \<open>0x00bbggrr\<close>; a byte is an
  \<open>unsigned char\<close>.
\<close>

type_synonym byte = "8 word"
type_synonym COLORREF = "32 word"

text \<open>
  Modelled from the spec: the colour macros of the Windows SDK, which the spec describes
  as one colour value carrying a triple \<open>(r, g, b)\<close>. The definitions follow the
  SDK's bit layout (red in the low byte).
\<close>

definition RGB :: "byte \<Rightarrow> byte \<Rightarrow> byte \<Rightarrow> COLORREF" where
  "RGB r g b = ucast r OR push_bit 8 (ucast g) OR push_bit 16 (ucast b)"

definition GetRValue :: "COLORREF \<Rightarrow> byte" where
  "GetRValue c = ucast c"

definition GetGValue :: "COLORREF \<Rightarrow> byte" where
  "GetGValue c = ucast (drop_bit 8 c)"

definition GetBValue :: "COLORREF \<Rightarrow> byte" where
  "GetBValue c = ucast (drop_bit 16 c)"

text \<open>
  The calls the program makes on the device context. They are kept in a log, in the order
  in which they are made, so that "which pixels were written" and "which pixels were read"
  are statements about the model.
\<close>

datatype gdi_call = SetPixelCall int int COLORREF | GetPixelCall int int

text \<open>
  Modelled from the spec: the shared surface behind the device context \<open>hdc\<close>, a
  noiseless pixel store with a horizontal resolution and no bound downwards
  (\<open>getPixel(x, y)\<close>, \<open>setPixel(x, y, r, g, b)\<close>, \<open>horizontalResolution()\<close>).
  \<open>SetPixel\<close> stores the colour at the coordinate, \<open>GetPixel\<close> returns what is
  stored there and changes nothing. Coordinates are C \<open>int\<close>s; signed overflow is
  undefined in C++, so they are integers here.
\<close>

record screen =
  HORZRES :: int
  pixel :: "int \<times> int \<Rightarrow> COLORREF"
  calls :: "gdi_call list"

definition GetDeviceCaps_HORZRES :: "screen \<Rightarrow> int" where
  "GetDeviceCaps_HORZRES hdc = HORZRES hdc"

definition SetPixel :: "screen \<Rightarrow> int \<Rightarrow> int \<Rightarrow> COLORREF \<Rightarrow> screen" where
  "SetPixel hdc x y color =
     hdc\<lparr>pixel := (pixel hdc)((x, y) := color),
         calls := calls hdc @ [SetPixelCall x y color]\<rparr>"

definition GetPixel :: "screen \<Rightarrow> int \<Rightarrow> int \<Rightarrow> COLORREF \<times> screen" where
  "GetPixel hdc x y = (pixel hdc (x, y), hdc\<lparr>calls := calls hdc @ [GetPixelCall x y]\<rparr>)"

section \<open>Packets\<close>

text \<open>\<open>#define PREFIX 0xCAFEBABE\<close>\<close>

definition PREFIX :: "32 word" where
  "PREFIX = 0xCAFEBABE"

text \<open>
  \<open>struct Packet\<close>. The field \<open>size\<close> is a \<open>uint32_t\<close>; the constructor from a
  payload initialises it with \<open>data.size()\<close>, a \<open>size_t\<close>, and the conversion keeps the
  low 32 bits.
\<close>

record Packet =
  prefix :: "32 word"
  size :: "32 word"
  payload :: "byte list"

definition Packet_of :: "byte list \<Rightarrow> Packet" where
  "Packet_of data = \<lparr>prefix = PREFIX, size = of_nat (length data), payload = data\<rparr>"

definition Packet_empty :: Packet where
  "Packet_empty = \<lparr>prefix = 0, size = 0, payload = []\<rparr>"

text \<open>
  \<open>memcpy\<close> of a \<open>uint32_t\<close> into a byte buffer and back. Windows runs on
  little-endian machines only: the low byte comes first.
\<close>

definition bytes_of_u32 :: "32 word \<Rightarrow> byte list" where
  "bytes_of_u32 w = [ucast w, ucast (drop_bit 8 w), ucast (drop_bit 16 w), ucast (drop_bit 24 w)]"

definition u32_of_bytes :: "byte list \<Rightarrow> 32 word" where
  "u32_of_bytes bs =
     ucast (bs ! 0) OR push_bit 8 (ucast (bs ! 1)) OR push_bit 16 (ucast (bs ! 2))
       OR push_bit 24 (ucast (bs ! 3))"

section \<open>Encoding a packet into pixels\<close>

text \<open>
  The first half of \<open>encodePacket\<close>: a buffer of
  \<open>sizeof(prefix) + sizeof(size) + payload.size()\<close> bytes, filled by three
  \<open>memcpy\<close>s.
\<close>

definition serialize :: "Packet \<Rightarrow> byte list" where
  "serialize packet = bytes_of_u32 (prefix packet) @ bytes_of_u32 (size packet) @ payload packet"

text \<open>
  The loop \<open>for (size_t i = 0; i < buffer.size(); i += 3)\<close> of \<open>encodePacket\<close>.
  One pixel per round; positions past the end of the buffer are filled with 0; the
  cursor moves right and wraps to column 0 of the next row when \<open>++x\<close> reaches the
  horizontal resolution.
\<close>

function encodeLoop :: "byte list \<Rightarrow> nat \<Rightarrow> int \<Rightarrow> int \<Rightarrow> screen \<Rightarrow> screen" where
  "encodeLoop buffer i x y hdc =
     (if i < length buffer then
        let r = buffer ! i;
            g = (if i + 1 < length buffer then buffer ! (i + 1) else 0);
            b = (if i + 2 < length buffer then buffer ! (i + 2) else 0);
            color = RGB r g b;
            hdc' = SetPixel hdc x y color
        in if x + 1 \<ge> GetDeviceCaps_HORZRES hdc'
           then encodeLoop buffer (i + 3) 0 (y + 1) hdc'
           else encodeLoop buffer (i + 3) (x + 1) y hdc'
      else hdc)"
  by pat_completeness auto
termination
  by (relation "measure (\<lambda>(buffer, i, x, y, hdc). length buffer - i)") auto

declare encodeLoop.simps [simp del]

definition encodePacket :: "screen \<Rightarrow> int \<Rightarrow> int \<Rightarrow> Packet \<Rightarrow> screen" where
  "encodePacket hdc startX startY packet = encodeLoop (serialize packet) 0 startX startY hdc"

section \<open>Decoding a packet from pixels\<close>

text \<open>
  The loop \<open>for (int i = 0; i < sizeof(packet.prefix) + sizeof(packet.size); i += 3)\<close>:
  the bound is 8, so it runs for \<open>i = 0, 3, 6\<close>. Each round appends the three
  channels of one pixel to the buffer and moves the cursor.
\<close>

function headerLoop :: "nat \<Rightarrow> int \<Rightarrow> int \<Rightarrow> byte list \<Rightarrow> screen \<Rightarrow> int \<times> int \<times> byte list \<times> screen" where
  "headerLoop i x y buffer hdc =
     (if i < 8 then
        let (color, hdc') = GetPixel hdc x y;
            buffer' = buffer @ [GetRValue color, GetGValue color, GetBValue color]
        in if x + 1 \<ge> GetDeviceCaps_HORZRES hdc'
           then headerLoop (i + 3) 0 (y + 1) buffer' hdc'
           else headerLoop (i + 3) (x + 1) y buffer' hdc'
      else (x, y, buffer, hdc))"
  by pat_completeness auto
termination
  by (relation "measure (\<lambda>(i, x, y, buffer, hdc). 8 - i)") auto

declare headerLoop.simps [simp del]

text \<open>
  The loop \<open>for (uint32_t i = 0; i < packet.size; i += 3)\<close>. The counter is a 32-bit
  unsigned integer and \<open>i += 3\<close> wraps around.
\<close>

function payloadLoop :: "32 word \<Rightarrow> 32 word \<Rightarrow> int \<Rightarrow> int \<Rightarrow> byte list \<Rightarrow> screen \<Rightarrow> int \<times> int \<times> byte list \<times> screen" where
  "payloadLoop sz i x y buffer hdc =
     (if i < sz then
        let (color, hdc') = GetPixel hdc x y;
            buffer' = buffer @ [GetRValue color, GetGValue color, GetBValue color]
        in if x + 1 \<ge> GetDeviceCaps_HORZRES hdc'
           then payloadLoop sz (i + 3) 0 (y + 1) buffer' hdc'
           else payloadLoop sz (i + 3) (x + 1) y buffer' hdc'
      else (x, y, buffer, hdc))"
  by pat_completeness auto

text \<open>
  The loop ends for every counter and every bound, also through the wrap-around: a
  counter below the bound wraps only from \<open>2^32 - 3\<close> or \<open>2^32 - 2\<close>, and lands in
  the residue class modulo 3 one below its own.
\<close>

termination
proof -
  have m: "(unat (i + 3) mod 3) * 2 ^ 32 + (2 ^ 32 - unat (i + 3))
             < (unat i mod 3) * 2 ^ 32 + (2 ^ 32 - unat i)"
    if "i < sz" for i sz :: "32 word"
  proof -
    have s: "unat sz < 2 ^ 32" using unsigned_less [of sz] by simp
    have lt: "unat i < unat sz" using that by (simp add: word_less_nat_alt)
    have u: "unat (i + 3) = (unat i + 3) mod 2 ^ 32" by (simp add: unat_word_ariths)
    show ?thesis
    proof (cases "unat i + 3 < 2 ^ 32")
      case True
      then have "unat (i + 3) = unat i + 3" using u by simp
      then show ?thesis using True by simp
    next
      case False
      then consider "unat i = 2 ^ 32 - 3" | "unat i = 2 ^ 32 - 2" using lt s by force
      then show ?thesis by cases (simp_all add: u)
    qed
  qed
  show ?thesis
    by (relation "measure (\<lambda>(sz, i, x, y, buffer, hdc).
          (unat i mod 3) * 2 ^ 32 + (2 ^ 32 - unat i))")
       (use m in auto)
qed

declare payloadLoop.simps [simp del]

text \<open>
  \<open>decodePacket\<close>: three header pixels, the two \<open>memcpy\<close>s of the fields out of
  the buffer, the check of the prefix (a default-constructed packet is returned when it
  fails), then the payload pixels and the first \<open>size\<close> bytes of what they gave.
\<close>

definition decodePacket :: "screen \<Rightarrow> int \<Rightarrow> int \<Rightarrow> Packet \<times> screen" where
  "decodePacket hdc startX startY =
     (let (x, y, buffer, hdc1) = headerLoop 0 startX startY [] hdc;
          pfx = u32_of_bytes buffer;
          sz = u32_of_bytes (drop 4 buffer)
      in if pfx \<noteq> PREFIX then (Packet_empty, hdc1)
         else let (x', y', buffer', hdc2) = payloadLoop sz 0 x y [] hdc1
              in (\<lparr>prefix = pfx, size = sz, payload = take (unat sz) buffer'\<rparr>, hdc2))"

section \<open>The process\<close>

text \<open>
  \<open>main\<close>, as the events an observer of the process sees. \<open>senderLoop\<close> and
  \<open>receiverLoop\<close> are \<open>while (true)\<close> loops without \<open>break\<close> or \<open>return\<close>: once
  the worker thread runs one of them, \<open>join\<close> never returns and the process has no exit
  code. The arguments of the two events are the start coordinates \<open>main\<close> passes on.
  The first argument of \<open>main\<close> says whether \<open>GetDC(NULL)\<close> gave a device context,
  the second is the value of \<open>instance\<close> after \<open>std::cin >> instance\<close>.
\<close>

datatype event =
    Cout string
  | Cerr string
  | EnterSenderLoop int int int int
  | EnterReceiverLoop int int int int
  | ReleaseDC

definition main :: "bool \<Rightarrow> int \<Rightarrow> event list \<times> int option" where
  "main hdc_ok instance =
     (if \<not> hdc_ok then ([Cerr ''Failed to get device context.''], Some 1)
      else if instance = 1 then
        ([Cout ''Enter instance (1 or 2): '', EnterSenderLoop 0 0 0 10], None)
      else if instance = 2 then
        ([Cout ''Enter instance (1 or 2): '', EnterReceiverLoop 0 0 0 10], None)
      else
        ([Cout ''Enter instance (1 or 2): '', Cerr ''Invalid instance number.'', ReleaseDC],
         Some 0))"

text \<open>Pixel operations and message exchange happen in the two loops only.\<close>

fun enters_loop :: "event \<Rightarrow> bool" where
  "enters_loop (EnterSenderLoop _ _ _ _) = True"
| "enters_loop (EnterReceiverLoop _ _ _ _) = True"
| "enters_loop _ = False"

fun is_Cerr :: "event \<Rightarrow> bool" where
  "is_Cerr (Cerr _) = True"
| "is_Cerr _ = False"

section \<open>Closed forms of the loops\<close>

text \<open>
  The step of the cursor, written three times in the source:
  \<open>if (++x >= GetDeviceCaps(hdc, HORZRES)) { x = 0; y++; }\<close>, and the cursor after
  \<open>k\<close> steps.
\<close>

fun advance :: "int \<Rightarrow> int \<times> int \<Rightarrow> int \<times> int" where
  "advance W (x, y) = (if x + 1 \<ge> W then (0, y + 1) else (x + 1, y))"

primrec cursor :: "int \<Rightarrow> int \<times> int \<Rightarrow> nat \<Rightarrow> int \<times> int" where
  "cursor W c 0 = c"
| "cursor W c (Suc k) = cursor W (advance W c) k"

text \<open>The colour of the pixel that carries the bytes \<open>i\<close>, \<open>i + 1\<close>, \<open>i + 2\<close> of a buffer.\<close>

definition triple :: "byte list \<Rightarrow> nat \<Rightarrow> COLORREF" where
  "triple buffer i =
     RGB (buffer ! i)
         (if i + 1 < length buffer then buffer ! (i + 1) else 0)
         (if i + 2 < length buffer then buffer ! (i + 2) else 0)"

text \<open>\<open>n\<close> writes from byte \<open>i\<close> of the buffer on, the first one at the cursor \<open>c\<close>.\<close>

primrec writes :: "int \<Rightarrow> byte list \<Rightarrow> nat \<Rightarrow> int \<times> int \<Rightarrow> nat \<Rightarrow> gdi_call list" where
  "writes W buffer i c 0 = []"
| "writes W buffer i c (Suc n) =
     SetPixelCall (fst c) (snd c) (triple buffer i) # writes W buffer (i + 3) (advance W c) n"

text \<open>\<open>n\<close> reads, the first one at the cursor \<open>c\<close>: the calls, and the bytes they give.\<close>

primrec gets :: "int \<Rightarrow> int \<times> int \<Rightarrow> nat \<Rightarrow> gdi_call list" where
  "gets W c 0 = []"
| "gets W c (Suc n) = GetPixelCall (fst c) (snd c) # gets W (advance W c) n"

primrec readBytes :: "int \<Rightarrow> (int \<times> int \<Rightarrow> COLORREF) \<Rightarrow> int \<times> int \<Rightarrow> nat \<Rightarrow> byte list" where
  "readBytes W p c 0 = []"
| "readBytes W p c (Suc n) =
     [GetRValue (p c), GetGValue (p c), GetBValue (p c)] @ readBytes W p (advance W c) n"

text \<open>The effect of a list of calls on the pixels: only \<open>SetPixel\<close> changes them.\<close>

fun perform :: "(int \<times> int \<Rightarrow> COLORREF) \<Rightarrow> gdi_call list \<Rightarrow> (int \<times> int \<Rightarrow> COLORREF)" where
  "perform p [] = p"
| "perform p (SetPixelCall x y color # cs) = perform (p((x, y) := color)) cs"
| "perform p (GetPixelCall x y # cs) = perform p cs"

fun is_GetPixel :: "gdi_call \<Rightarrow> bool" where
  "is_GetPixel (GetPixelCall _ _) = True"
| "is_GetPixel (SetPixelCall _ _ _) = False"

section \<open>Two surfaces to run the code on\<close>

text \<open>
  A surface 1920 pixels wide and one 4 pixels wide, both white all over and with an empty
  log: every channel of every pixel is \<open>0xFF\<close>, so a \<open>0x00\<close> read back from
  them was written by the program.
\<close>

definition white_screen :: screen where
  "white_screen = \<lparr>HORZRES = 1920, pixel = (\<lambda>_. RGB 0xFF 0xFF 0xFF), calls = []\<rparr>"

definition narrow_screen :: screen where
  "narrow_screen = \<lparr>HORZRES = 4, pixel = (\<lambda>_. RGB 0xFF 0xFF 0xFF), calls = []\<rparr>"

section \<open>Colours and 32-bit fields\<close>

lemma byte_bit_high: "bit (w :: byte) (k + n) \<Longrightarrow> 8 \<le> k \<Longrightarrow> False"
  by (drule bit_imp_le_length) simp

lemma GetRValue_RGB [simp]: "GetRValue (RGB r g b) = r"
  unfolding GetRValue_def RGB_def
  by (rule bit_word_eqI) (auto simp: bit_simps)

lemma GetGValue_RGB [simp]: "GetGValue (RGB r g b) = g"
  unfolding GetGValue_def RGB_def
  by (rule bit_word_eqI) (auto simp: bit_simps dest: byte_bit_high)

lemma GetBValue_RGB [simp]: "GetBValue (RGB r g b) = b"
  unfolding GetBValue_def RGB_def
  by (rule bit_word_eqI) (auto simp: bit_simps dest: byte_bit_high)

lemma bytes_of_u32_inverse: "bytes_of_u32 (u32_of_bytes (a # b # c # d # rest)) = [a, b, c, d]"
  unfolding u32_of_bytes_def bytes_of_u32_def
  apply simp
  apply (intro conjI; rule bit_word_eqI)
     apply (auto simp: bit_simps dest: byte_bit_high)
  done

lemma u32_of_bytes_inverse: "u32_of_bytes (bytes_of_u32 w @ rest) = w"
proof (rule bit_word_eqI)
  fix n assume n: "n < LENGTH(32)"
  consider "n < 8" | "8 \<le> n" "n < 16" | "16 \<le> n" "n < 24" | "24 \<le> n" "n < 32"
    using n by fastforce
  then show "bit (u32_of_bytes (bytes_of_u32 w @ rest)) n = bit w n"
    unfolding u32_of_bytes_def bytes_of_u32_def
    by cases (auto simp: bit_simps)
qed

lemma length_bytes_of_u32 [simp]: "length (bytes_of_u32 w) = 4"
  by (simp add: bytes_of_u32_def)

lemma bytes_of_PREFIX: "bytes_of_u32 PREFIX = [0xBE, 0xBA, 0xFE, 0xCA]"
  by (simp add: bytes_of_u32_def PREFIX_def)

section \<open>The encoding loop in closed form\<close>

lemma div3_step:
  "i < (L::nat) \<Longrightarrow> n = (L - i + 2) div 3 \<Longrightarrow> \<exists>n'. n = Suc n' \<and> n' = (L - (i + 3) + 2) div 3"
  by arith

lemma div3_stop: "\<not> i < (L::nat) \<Longrightarrow> (L - i + 2) div 3 = 0"
  by arith

lemma encodeLoop_closed_aux:
  "n = (length buffer - i + 2) div 3 \<Longrightarrow>
   encodeLoop buffer i x y hdc =
     hdc\<lparr>pixel := perform (pixel hdc) (writes (HORZRES hdc) buffer i (x, y) n),
         calls := calls hdc @ writes (HORZRES hdc) buffer i (x, y) n\<rparr>"
proof (induction buffer i x y hdc arbitrary: n rule: encodeLoop.induct)
  case (1 buffer i x y hdc)
  show ?case
  proof (cases "i < length buffer")
    case False
    then have "n = 0" using "1.prems" div3_stop by simp
    then show ?thesis using False by (simp add: encodeLoop.simps [of buffer i])
  next
    case True
    obtain n' where n: "n = Suc n'" and n': "n' = (length buffer - (i + 3) + 2) div 3"
      using div3_step [OF True "1.prems"] by blast
    define hdc' where "hdc' = SetPixel hdc x y (triple buffer i)"
    have W: "GetDeviceCaps_HORZRES hdc' = HORZRES hdc" "HORZRES hdc' = HORZRES hdc"
      by (simp_all add: hdc'_def SetPixel_def GetDeviceCaps_HORZRES_def)
    have unf: "encodeLoop buffer i x y hdc =
        (if x + 1 \<ge> HORZRES hdc then encodeLoop buffer (i + 3) 0 (y + 1) hdc'
         else encodeLoop buffer (i + 3) (x + 1) y hdc')"
      using True W by (subst encodeLoop.simps) (simp add: Let_def triple_def hdc'_def)
    show ?thesis
    proof (cases "x + 1 \<ge> HORZRES hdc")
      case w: True
      have "encodeLoop buffer (i + 3) 0 (y + 1) hdc' =
          hdc'\<lparr>pixel := perform (pixel hdc') (writes (HORZRES hdc') buffer (i + 3) (0, y + 1) n'),
               calls := calls hdc' @ writes (HORZRES hdc') buffer (i + 3) (0, y + 1) n'\<rparr>"
        using "1.IH"(1) [OF True refl refl refl refl refl _ n'] w W
        by (simp add: hdc'_def triple_def)
      then show ?thesis using w unf n by (simp add: hdc'_def SetPixel_def)
    next
      case w: False
      have "encodeLoop buffer (i + 3) (x + 1) y hdc' =
          hdc'\<lparr>pixel := perform (pixel hdc') (writes (HORZRES hdc') buffer (i + 3) (x + 1, y) n'),
               calls := calls hdc' @ writes (HORZRES hdc') buffer (i + 3) (x + 1, y) n'\<rparr>"
        using "1.IH"(2) [OF True refl refl refl refl refl _ n'] w W
        by (simp add: hdc'_def triple_def)
      then show ?thesis using w unf n by (simp add: hdc'_def SetPixel_def)
    qed
  qed
qed

lemma encodePacket_closed:
  "encodePacket hdc x y packet =
     hdc\<lparr>pixel := perform (pixel hdc)
                 (writes (HORZRES hdc) (serialize packet) 0 (x, y) ((length (serialize packet) + 2) div 3)),
         calls := calls hdc @
                 writes (HORZRES hdc) (serialize packet) 0 (x, y) ((length (serialize packet) + 2) div 3)\<rparr>"
  unfolding encodePacket_def by (rule encodeLoop_closed_aux) simp

section \<open>The decoding loops in closed form\<close>

lemma payload_stop:
  fixes i sz :: "32 word"
  assumes "\<not> i < sz" "unat i mod 3 = 0"
  shows "(unat sz + 2) div 3 - unat i div 3 = 0"
proof -
  obtain m where m: "unat i = 3 * m" using assms(2) by (auto simp: mod_eq_0_iff_dvd)
  have "unat sz \<le> unat i" using assms(1) by (simp add: word_less_nat_alt)
  then have "(unat sz + 2) div 3 \<le> (3 * m + 2) div 3"
    unfolding m by (intro div_le_mono) simp
  also have "(3 * m + 2) div 3 = m" by simp
  finally show ?thesis by (simp add: m)
qed

lemma payload_step:
  fixes i sz :: "32 word"
  assumes "i < sz" "unat i mod 3 = 0" "n = (unat sz + 2) div 3 - unat i div 3"
  obtains n' where "unat (i + 3) mod 3 = 0" "n = Suc n'"
    "n' = (unat sz + 2) div 3 - unat (i + 3) div 3"
proof -
  obtain m where m: "unat i = 3 * m" using assms(2) by (auto simp: mod_eq_0_iff_dvd)
  have s: "unat sz < 2 ^ 32" using unsigned_less [of sz] by simp
  have lt: "unat i < unat sz" using assms(1) by (simp add: word_less_nat_alt)
  have "unat i \<noteq> 2 ^ 32 - 3" "unat i \<noteq> 2 ^ 32 - 2" using assms(2) by auto
  then have "unat i + 3 < 2 ^ 32" using lt s by simp
  then have u: "unat (i + 3) = 3 * (m + 1)" by (simp add: unat_word_ariths m)
  have "3 * (m + 1) \<le> unat sz + 2" using lt m by simp
  then have "(3 * (m + 1)) div 3 \<le> (unat sz + 2) div 3" by (rule div_le_mono)
  then have ge: "m + 1 \<le> (unat sz + 2) div 3" by simp
  have d: "unat (i + 3) div 3 = m + 1" "unat i div 3 = m" "unat (i + 3) mod 3 = 0"
    unfolding u m by simp_all
  have e: "n = Suc ((unat sz + 2) div 3 - unat (i + 3) div 3)"
    unfolding d assms(3) using ge by auto
  show thesis by (rule that [OF d(3) e refl])
qed

lemma payloadLoop_closed_aux:
  "unat i mod 3 = 0 \<Longrightarrow> n = (unat sz + 2) div 3 - unat i div 3 \<Longrightarrow>
   payloadLoop sz i x y buffer hdc =
     (fst (cursor (HORZRES hdc) (x, y) n), snd (cursor (HORZRES hdc) (x, y) n),
      buffer @ readBytes (HORZRES hdc) (pixel hdc) (x, y) n,
      hdc\<lparr>calls := calls hdc @ gets (HORZRES hdc) (x, y) n\<rparr>)"
proof (induction sz i x y buffer hdc arbitrary: n rule: payloadLoop.induct)
  case (1 sz i x y buffer hdc)
  show ?case
  proof (cases "i < sz")
    case False
    then have "n = 0" using "1.prems" payload_stop by simp
    then show ?thesis using False by (simp add: payloadLoop.simps [of sz i])
  next
    case True
    obtain n' where i3: "unat (i + 3) mod 3 = 0" and n: "n = Suc n'"
      and n': "n' = (unat sz + 2) div 3 - unat (i + 3) div 3"
      by (rule payload_step [OF True "1.prems"])
    define hdc' where "hdc' = hdc\<lparr>calls := calls hdc @ [GetPixelCall x y]\<rparr>"
    define buffer' where "buffer' = buffer @ [GetRValue (pixel hdc (x, y)), GetGValue (pixel hdc (x, y)), GetBValue (pixel hdc (x, y))]"
    have G: "GetPixel hdc x y = (pixel hdc (x, y), hdc')"
      by (simp add: GetPixel_def hdc'_def)
    have W: "GetDeviceCaps_HORZRES hdc' = HORZRES hdc" "HORZRES hdc' = HORZRES hdc" "pixel hdc' = pixel hdc"
      by (simp_all add: hdc'_def GetDeviceCaps_HORZRES_def)
    have unf: "payloadLoop sz i x y buffer hdc =
        (if x + 1 \<ge> HORZRES hdc then payloadLoop sz (i + 3) 0 (y + 1) buffer' hdc'
         else payloadLoop sz (i + 3) (x + 1) y buffer' hdc')"
      using True W by (subst payloadLoop.simps) (simp add: G buffer'_def)
    show ?thesis
    proof (cases "x + 1 \<ge> HORZRES hdc")
      case w: True
      have "payloadLoop sz (i + 3) 0 (y + 1) buffer' hdc' =
         (fst (cursor (HORZRES hdc') (0, y + 1) n'), snd (cursor (HORZRES hdc') (0, y + 1) n'),
          buffer' @ readBytes (HORZRES hdc') (pixel hdc') (0, y + 1) n',
          hdc'\<lparr>calls := calls hdc' @ gets (HORZRES hdc') (0, y + 1) n'\<rparr>)"
        unfolding buffer'_def
        by (rule "1.IH"(1) [OF True G [symmetric] refl refl _ i3 n']) (simp add: W w)
      then show ?thesis using w unf n W by (simp add: hdc'_def buffer'_def)
    next
      case w: False
      have "payloadLoop sz (i + 3) (x + 1) y buffer' hdc' =
         (fst (cursor (HORZRES hdc') (x + 1, y) n'), snd (cursor (HORZRES hdc') (x + 1, y) n'),
          buffer' @ readBytes (HORZRES hdc') (pixel hdc') (x + 1, y) n',
          hdc'\<lparr>calls := calls hdc' @ gets (HORZRES hdc') (x + 1, y) n'\<rparr>)"
        unfolding buffer'_def
        by (rule "1.IH"(2) [OF True G [symmetric] refl refl _ i3 n']) (simp add: W w)
      then show ?thesis using w unf n W by (simp add: hdc'_def buffer'_def)
    qed
  qed
qed

lemma headerLoop_closed:
  "headerLoop 0 x y [] hdc =
     (fst (cursor (HORZRES hdc) (x, y) 3), snd (cursor (HORZRES hdc) (x, y) 3),
      readBytes (HORZRES hdc) (pixel hdc) (x, y) 3,
      hdc\<lparr>calls := calls hdc @ gets (HORZRES hdc) (x, y) 3\<rparr>)"
  by (simp add: headerLoop.simps GetPixel_def GetDeviceCaps_HORZRES_def numeral_3_eq_3)

lemma payloadLoop_closed:
  "payloadLoop sz 0 x y [] hdc =
     (fst (cursor (HORZRES hdc) (x, y) ((unat sz + 2) div 3)),
      snd (cursor (HORZRES hdc) (x, y) ((unat sz + 2) div 3)),
      readBytes (HORZRES hdc) (pixel hdc) (x, y) ((unat sz + 2) div 3),
      hdc\<lparr>calls := calls hdc @ gets (HORZRES hdc) (x, y) ((unat sz + 2) div 3)\<rparr>)"
  using payloadLoop_closed_aux [of 0 "(unat sz + 2) div 3" sz x y "[]" hdc] by simp

lemma cursor_add: "cursor W c (m + n) = cursor W (cursor W c m) n"
  by (induction m arbitrary: c) simp_all

lemma gets_add: "gets W c (m + n) = gets W c m @ gets W (cursor W c m) n"
  by (induction m arbitrary: c) simp_all

lemma readBytes_add:
  "readBytes W p c (m + n) = readBytes W p c m @ readBytes W p (cursor W c m) n"
  by (induction m arbitrary: c) simp_all

lemma length_readBytes [simp]: "length (readBytes W p c n) = 3 * n"
  by (induction n arbitrary: c) simp_all

lemma length_gets [simp]: "length (gets W c n) = n"
  by (induction n arbitrary: c) simp_all

lemma length_writes [simp]: "length (writes W buffer i c n) = n"
  by (induction n arbitrary: i c) simp_all

lemma nth_gets:
  "k < n \<Longrightarrow> gets W c n ! k = GetPixelCall (fst (cursor W c k)) (snd (cursor W c k))"
proof (induction n arbitrary: c k)
  case 0
  then show ?case by simp
next
  case (Suc n)
  then show ?case by (cases k) simp_all
qed

lemma nth_writes:
  "k < n \<Longrightarrow> writes W buffer i c n ! k =
     SetPixelCall (fst (cursor W c k)) (snd (cursor W c k)) (triple buffer (i + 3 * k))"
proof (induction n arbitrary: c k i)
  case 0
  then show ?case by simp
next
  case (Suc n)
  show ?case
  proof (cases k)
    case 0
    then show ?thesis by simp
  next
    case (Suc k')
    then have "k' < n" using Suc.prems by simp
    from Suc.IH [OF this, of "i + 3" "advance W c"] show ?thesis
      using Suc by (simp add: add.assoc)
  qed
qed

lemma gets_all_GetPixel: "\<forall>c \<in> set (gets W c0 n). is_GetPixel c"
  by (induction n arbitrary: c0) simp_all

lemma perform_gets [simp]: "perform p (gets W c n) = p"
  by (induction n arbitrary: c) simp_all

lemma decodePacket_closed:
  "decodePacket hdc x y =
    (let W = HORZRES hdc;
         hb = readBytes W (pixel hdc) (x, y) 3;
         sz = u32_of_bytes (drop 4 hb);
         n = (unat sz + 2) div 3
     in if u32_of_bytes hb \<noteq> PREFIX
        then (Packet_empty, hdc\<lparr>calls := calls hdc @ gets W (x, y) 3\<rparr>)
        else (\<lparr>prefix = u32_of_bytes hb, size = sz,
               payload = take (unat sz) (readBytes W (pixel hdc) (cursor W (x, y) 3) n)\<rparr>,
              hdc\<lparr>calls := calls hdc @ gets W (x, y) (3 + n)\<rparr>))"
  unfolding decodePacket_def headerLoop_closed Let_def
  by (simp only: prod.case payloadLoop_closed gets_add prod.collapse)
     (simp add: Let_def)

section \<open>The cursor and the pixels after a run of writes\<close>

lemma cursor_formula:
  "0 \<le> x \<Longrightarrow> x < W \<Longrightarrow>
   cursor W (x, y) k = ((x + int k) mod W, y + (x + int k) div W)"
proof (induction k arbitrary: x y)
  case 0
  then show ?case by simp
next
  case (Suc k)
  show ?case
  proof (cases "x + 1 \<ge> W")
    case True
    then have x: "x = W - 1" using Suc.prems by simp
    have W: "0 < W" using Suc.prems by simp
    have "cursor W (x, y) (Suc k) = cursor W (0, y + 1) k" using True by simp
    also have "\<dots> = ((0 + int k) mod W, (y + 1) + (0 + int k) div W)"
      using W by (intro Suc.IH) simp_all
    also have "(0 + int k) mod W = (x + int (Suc k)) mod W"
      unfolding x by (simp add: algebra_simps)
    also have "(y + 1) + (0 + int k) div W = y + (x + int (Suc k)) div W"
    proof -
      have e1: "x + int (Suc k) = int k + W" unfolding x by simp
      have e2: "(int k + W) div W = int k div W + 1"
        by (rule div_add_self2) (use W in simp)
      show ?thesis unfolding e1 e2 by simp
    qed
    finally show ?thesis .
  next
    case False
    then have "cursor W (x, y) (Suc k) = cursor W (x + 1, y) k" by simp
    also have "\<dots> = ((x + 1 + int k) mod W, y + (x + 1 + int k) div W)"
      using False Suc.prems by (intro Suc.IH) simp_all
    finally show ?thesis by (simp add: algebra_simps)
  qed
qed

lemma cursor_inj:
  assumes "0 \<le> x" "x < W" "cursor W (x, y) a = cursor W (x, y) b"
  shows "a = b"
proof -
  have m: "(x + int a) mod W = (x + int b) mod W" and d: "(x + int a) div W = (x + int b) div W"
    using assms by (simp_all add: cursor_formula)
  have "x + int a = W * ((x + int a) div W) + (x + int a) mod W" by simp
  also have "\<dots> = W * ((x + int b) div W) + (x + int b) mod W" by (simp only: m d)
  also have "\<dots> = x + int b" by simp
  finally show ?thesis by simp
qed

lemma perform_writes_other:
  "\<forall>k<n. cursor W c0 k \<noteq> c \<Longrightarrow> perform p (writes W buffer i c0 n) c = p c"
proof (induction n arbitrary: p i c0)
  case 0
  then show ?case by simp
next
  case (Suc n)
  have c0: "c0 \<noteq> c" using Suc.prems [rule_format, of 0] by simp
  have "\<forall>k<n. cursor W (advance W c0) k \<noteq> c"
  proof (intro allI impI)
    fix k assume "k < n"
    then show "cursor W (advance W c0) k \<noteq> c" using Suc.prems [rule_format, of "Suc k"] by simp
  qed
  from Suc.IH [OF this] show ?case using c0 by (cases c0) auto
qed

lemma perform_writes_at:
  "\<forall>a<n. \<forall>b<n. cursor W c0 a = cursor W c0 b \<longrightarrow> a = b \<Longrightarrow> k < n \<Longrightarrow>
   perform p (writes W buffer i c0 n) (cursor W c0 k) = triple buffer (i + 3 * k)"
proof (induction n arbitrary: p i c0 k)
  case 0
  then show ?case by simp
next
  case (Suc n)
  obtain x y where c0: "c0 = (x, y)" by (cases c0)
  show ?case
  proof (cases k)
    case 0
    have "\<forall>j<n. cursor W (advance W c0) j \<noteq> c0"
    proof (intro allI impI notI)
      fix j assume j: "j < n" and e: "cursor W (advance W c0) j = c0"
      then have "cursor W c0 (Suc j) = cursor W c0 0" by simp
      then have "Suc j = 0" using Suc.prems(1) j by blast
      then show False by simp
    qed
    from perform_writes_other [OF this] show ?thesis using 0 by (simp add: c0)
  next
    case k: (Suc k')
    then have k': "k' < n" using Suc.prems by simp
    have inj: "\<forall>a<n. \<forall>b<n. cursor W (advance W c0) a = cursor W (advance W c0) b \<longrightarrow> a = b"
    proof (intro allI impI)
      fix a b assume "a < n" "b < n" "cursor W (advance W c0) a = cursor W (advance W c0) b"
      then have "Suc a < Suc n" "Suc b < Suc n" "cursor W c0 (Suc a) = cursor W c0 (Suc b)" by simp_all
      then have "Suc a = Suc b" using Suc.prems(1) by blast
      then show "a = b" by simp
    qed
    have step: "perform p (writes W buffer i c0 (Suc n)) =
        perform (p(c0 := triple buffer i)) (writes W buffer (i + 3) (advance W c0) n)"
      by (simp add: c0 del: advance.simps)
    have idx: "i + 3 * k = (i + 3) + 3 * k'" using k by simp
    have cur: "cursor W c0 k = cursor W (advance W c0) k'" using k by simp
    show ?thesis unfolding step idx cur by (rule Suc.IH [OF inj k'])
  qed
qed

section \<open>Running the code on the two surfaces\<close>

lemma HORZRES_screens: "HORZRES white_screen = 1920" "HORZRES narrow_screen = 4"
  by (simp_all add: white_screen_def narrow_screen_def)

lemma bytes_of_3: "bytes_of_u32 3 = [3, 0, 0, 0]"
  by (simp add: bytes_of_u32_def)

lemma serialize_ABC:
  "serialize (Packet_of [0x41, 0x42, 0x43]) =
     [0xBE, 0xBA, 0xFE, 0xCA, 3, 0, 0, 0, 0x41, 0x42, 0x43]"
  by (simp add: serialize_def Packet_of_def bytes_of_PREFIX bytes_of_3)

lemma u32_3: "u32_of_bytes (3 # 0 # 0 # 0 # rest) = 3"
  by (simp add: u32_of_bytes_def)

lemma u32_PREFIX: "u32_of_bytes (0xBE # 0xBA # 0xFE # 0xCA # rest) = PREFIX"
  by (simp add: u32_of_bytes_def PREFIX_def)

lemma writes_ABC:
  "writes 1920 [0xBE, 0xBA, 0xFE, 0xCA, 3, 0, 0, 0, 0x41, 0x42, 0x43] 0 (0, 0) 4 =
    [SetPixelCall 0 0 (RGB 0xBE 0xBA 0xFE), SetPixelCall 1 0 (RGB 0xCA 3 0),
     SetPixelCall 2 0 (RGB 0 0 0x41), SetPixelCall 3 0 (RGB 0x42 0x43 0)]"
  by (simp add: eval_nat_numeral triple_def)

lemma calls_ABC:
  "calls (encodePacket white_screen 0 0 (Packet_of [0x41, 0x42, 0x43])) =
    [SetPixelCall 0 0 (RGB 0xBE 0xBA 0xFE), SetPixelCall 1 0 (RGB 0xCA 3 0),
     SetPixelCall 2 0 (RGB 0 0 0x41), SetPixelCall 3 0 (RGB 0x42 0x43 0)]"
  by (simp add: encodePacket_closed serialize_ABC white_screen_def writes_ABC)

lemma bytes_of_2: "bytes_of_u32 2 = [2, 0, 0, 0]"
  by (simp add: bytes_of_u32_def)

lemma serialize_AB:
  "serialize (Packet_of [0x41, 0x42]) = [0xBE, 0xBA, 0xFE, 0xCA, 2, 0, 0, 0, 0x41, 0x42]"
  by (simp add: serialize_def Packet_of_def bytes_of_PREFIX bytes_of_2)

lemma u32_2: "u32_of_bytes (2 # 0 # 0 # 0 # rest) = 2"
  by (simp add: u32_of_bytes_def)

lemma writes_AB:
  "writes 1920 [0xBE, 0xBA, 0xFE, 0xCA, 2, 0, 0, 0, 0x41, 0x42] 0 (0, 0) 4 =
    [SetPixelCall 0 0 (RGB 0xBE 0xBA 0xFE), SetPixelCall 1 0 (RGB 0xCA 2 0),
     SetPixelCall 2 0 (RGB 0 0 0x41), SetPixelCall 3 0 (RGB 0x42 0 0)]"
  by (simp add: eval_nat_numeral triple_def)

lemma sent_ABC:
  "pixel (encodePacket white_screen 0 0 (Packet_of [0x41, 0x42, 0x43])) =
     (\<lambda>_. RGB 0xFF 0xFF 0xFF)
      ((0, 0) := RGB 0xBE 0xBA 0xFE, (1, 0) := RGB 0xCA 3 0,
       (2, 0) := RGB 0 0 0x41, (3, 0) := RGB 0x42 0x43 0)"
  "HORZRES (encodePacket white_screen 0 0 (Packet_of [0x41, 0x42, 0x43])) = 1920"
  by (simp_all add: encodePacket_closed serialize_ABC white_screen_def writes_ABC)

lemma sent_AB:
  "pixel (encodePacket white_screen 0 0 (Packet_of [0x41, 0x42])) =
     (\<lambda>_. RGB 0xFF 0xFF 0xFF)
      ((0, 0) := RGB 0xBE 0xBA 0xFE, (1, 0) := RGB 0xCA 2 0,
       (2, 0) := RGB 0 0 0x41, (3, 0) := RGB 0x42 0 0)"
  "HORZRES (encodePacket white_screen 0 0 (Packet_of [0x41, 0x42])) = 1920"
  "calls (encodePacket white_screen 0 0 (Packet_of [0x41, 0x42])) =
    [SetPixelCall 0 0 (RGB 0xBE 0xBA 0xFE), SetPixelCall 1 0 (RGB 0xCA 2 0),
     SetPixelCall 2 0 (RGB 0 0 0x41), SetPixelCall 3 0 (RGB 0x42 0 0)]"
  by (simp_all add: encodePacket_closed serialize_AB white_screen_def writes_AB)

section \<open>Facts about decoding\<close>

lemma decodePacket_valid:
  assumes "readBytes (HORZRES hdc) (pixel hdc) (x, y) 3 = hb"
    and "u32_of_bytes hb = PREFIX"
    and "u32_of_bytes (drop 4 hb) = sz"
    and "(unat sz + 2) div 3 = n"
    and "cursor (HORZRES hdc) (x, y) 3 = c"
    and "take (unat sz) (readBytes (HORZRES hdc) (pixel hdc) c n) = pl"
  shows "decodePacket hdc x y =
    (\<lparr>prefix = PREFIX, size = sz, payload = pl\<rparr>,
     hdc\<lparr>calls := calls hdc @ gets (HORZRES hdc) (x, y) (3 + n)\<rparr>)"
  unfolding decodePacket_closed Let_def assms by simp

lemma decodePacket_invalid:
  assumes "u32_of_bytes (readBytes (HORZRES hdc) (pixel hdc) (x, y) 3) \<noteq> PREFIX"
  shows "decodePacket hdc x y =
    (Packet_empty, hdc\<lparr>calls := calls hdc @ gets (HORZRES hdc) (x, y) 3\<rparr>)"
  unfolding decodePacket_closed Let_def using assms by simp

lemma ceil3_ge: "s \<le> 3 * ((s + 2) div 3)" for s :: nat
  by arith

lemma u32_of_bytes_first4:
  "u32_of_bytes (a # b # c # d # rest) = u32_of_bytes [a, b, c, d]"
  by (simp add: u32_of_bytes_def)

lemma readBytes_3_first4:
  "\<exists>rest. readBytes W p (x, y) 3 =
     GetRValue (p (x, y)) # GetGValue (p (x, y)) # GetBValue (p (x, y)) #
     GetRValue (p (advance W (x, y))) # rest"
  by (simp add: eval_nat_numeral del: advance.simps)

lemma gets_3:
  "gets W c 3 =
     [GetPixelCall (fst (cursor W c 0)) (snd (cursor W c 0)),
      GetPixelCall (fst (cursor W c 1)) (snd (cursor W c 1)),
      GetPixelCall (fst (cursor W c 2)) (snd (cursor W c 2))]"
  by (simp add: eval_nat_numeral del: advance.simps)

lemma decodePacket_snd:
  "\<exists>m. snd (decodePacket hdc x y) = hdc\<lparr>calls := calls hdc @ gets (HORZRES hdc) (x, y) m\<rparr>"
  unfolding decodePacket_closed Let_def by (simp del: gets.simps) blast

lemma decodePacket_fst_calls:
  "fst (decodePacket (hdc\<lparr>calls := l\<rparr>) x y) = fst (decodePacket hdc x y)"
  unfolding decodePacket_closed Let_def by simp

lemma decodePacket_size_payload:
  "unat (size (fst (decodePacket hdc x y))) = length (payload (fst (decodePacket hdc x y)))"
proof (cases "u32_of_bytes (readBytes (HORZRES hdc) (pixel hdc) (x, y) 3) = PREFIX")
  case False
  then show ?thesis unfolding decodePacket_closed Let_def by (simp add: Packet_empty_def)
next
  case True
  define sz where "sz = u32_of_bytes (drop 4 (readBytes (HORZRES hdc) (pixel hdc) (x, y) 3))"
  have "min (unat sz) (3 * ((unat sz + 2) div 3)) = unat sz"
    using ceil3_ge [of "unat sz"] by (simp only: min_def if_True)
  then show ?thesis unfolding decodePacket_closed Let_def using True
    by (simp add: sz_def del: readBytes.simps)
qed

section \<open>What \<open>decodePacket\<close> finds after \<open>encodePacket\<close>\<close>

lemma length_serialize: "length (serialize packet) = 8 + length (payload packet)"
  by (simp add: serialize_def)

lemma RGB_inject [simp]: "RGB r g b = RGB r' g' b' \<longleftrightarrow> r = r' \<and> g = g' \<and> b = b'"
proof
  assume e: "RGB r g b = RGB r' g' b'"
  have "GetRValue (RGB r g b) = GetRValue (RGB r' g' b')"
    "GetGValue (RGB r g b) = GetGValue (RGB r' g' b')"
    "GetBValue (RGB r g b) = GetBValue (RGB r' g' b')"
    by (simp_all only: e)
  then show "r = r' \<and> g = g' \<and> b = b'" by simp
qed simp

lemma writes_eq_map:
  assumes "0 \<le> x0" "x0 < W"
  shows "writes W buffer 0 (x0, y0) k =
     map (\<lambda>i. SetPixelCall ((x0 + int i) mod W) (y0 + (x0 + int i) div W) (triple buffer (3 * i)))
       [0..<k]"
  by (rule nth_equalityI) (simp_all add: nth_writes cursor_formula [OF assms])

lemma gets_eq_map:
  assumes "0 \<le> x0" "x0 < W"
  shows "gets W (x0, y0) m =
     map (\<lambda>i. GetPixelCall ((x0 + int i) mod W) (y0 + (x0 + int i) div W)) [0..<m]"
  by (rule nth_equalityI) (simp_all add: nth_gets cursor_formula [OF assms])

lemma encodePacket_pixel_at:
  assumes "0 \<le> x0" "x0 < HORZRES hdc" "i < (length (serialize packet) + 2) div 3"
  shows "pixel (encodePacket hdc x0 y0 packet) (cursor (HORZRES hdc) (x0, y0) i) =
     triple (serialize packet) (3 * i)"
proof -
  have inj: "\<forall>a<(length (serialize packet) + 2) div 3. \<forall>b<(length (serialize packet) + 2) div 3.
      cursor (HORZRES hdc) (x0, y0) a = cursor (HORZRES hdc) (x0, y0) b \<longrightarrow> a = b"
    using cursor_inj [OF assms(1,2)] by blast
  from perform_writes_at [OF inj assms(3), of "pixel hdc" "serialize packet" 0]
  show ?thesis by (simp add: encodePacket_closed)
qed

lemma encodePacket_pixel_other:
  assumes "\<forall>i<(length (serialize packet) + 2) div 3. cursor (HORZRES hdc) (x0, y0) i \<noteq> c"
  shows "pixel (encodePacket hdc x0 y0 packet) c = pixel hdc c"
  using perform_writes_other [OF assms] by (simp add: encodePacket_closed)

lemma HORZRES_encodePacket [simp]: "HORZRES (encodePacket hdc x y packet) = HORZRES hdc"
  by (simp add: encodePacket_closed)

lemma readBytes_3:
  "readBytes W p c 3 =
    [GetRValue (p (cursor W c 0)), GetGValue (p (cursor W c 0)), GetBValue (p (cursor W c 0)),
     GetRValue (p (cursor W c 1)), GetGValue (p (cursor W c 1)), GetBValue (p (cursor W c 1)),
     GetRValue (p (cursor W c 2)), GetGValue (p (cursor W c 2)), GetBValue (p (cursor W c 2))]"
  by (simp add: eval_nat_numeral del: advance.simps)

text \<open>The header that \<open>decodePacket\<close> finds where \<open>encodePacket\<close> wrote a packet.\<close>

lemma header_after_encodePacket:
  assumes "0 \<le> x0" "x0 < HORZRES hdc"
  shows "\<exists>z. readBytes (HORZRES hdc) (pixel (encodePacket hdc x0 y0 packet)) (x0, y0) 3 =
     bytes_of_u32 (prefix packet) @ bytes_of_u32 (size packet) @ [z]"
proof -
  let ?b = "serialize packet"
  have k: "0 < (length ?b + 2) div 3" "1 < (length ?b + 2) div 3" "2 < (length ?b + 2) div 3"
    by (simp_all add: length_serialize)
  have t: "triple ?b 0 = RGB (?b ! 0) (?b ! 1) (?b ! 2)"
    "triple ?b 3 = RGB (?b ! 3) (?b ! 4) (?b ! 5)"
    "triple ?b 6 = RGB (?b ! 6) (?b ! 7) (if 8 < length ?b then ?b ! 8 else 0)"
    by (simp_all add: triple_def length_serialize numeral_2_eq_2)
  have b: "[?b ! 0, ?b ! 1, ?b ! 2, ?b ! 3, ?b ! 4, ?b ! 5, ?b ! 6, ?b ! 7] =
      bytes_of_u32 (prefix packet) @ bytes_of_u32 (size packet)"
    by (simp add: serialize_def bytes_of_u32_def)
  have "readBytes (HORZRES hdc) (pixel (encodePacket hdc x0 y0 packet)) (x0, y0) 3 =
     [?b ! 0, ?b ! 1, ?b ! 2, ?b ! 3, ?b ! 4, ?b ! 5, ?b ! 6, ?b ! 7] @
     [if 8 < length ?b then ?b ! 8 else 0]"
    unfolding readBytes_3
    using encodePacket_pixel_at [OF assms k(1), of y0] encodePacket_pixel_at [OF assms k(2), of y0]
      encodePacket_pixel_at [OF assms k(3), of y0] t
    by (simp del: cursor.simps)
  then show ?thesis unfolding b by auto
qed

lemma decodePacket_after_encodePacket_calls:
  assumes "0 \<le> x0" "x0 < HORZRES hdc" "prefix packet = PREFIX"
  shows "calls (snd (decodePacket (encodePacket hdc x0 y0 packet) x0 y0)) =
     calls (encodePacket hdc x0 y0 packet) @
     gets (HORZRES hdc) (x0, y0) (3 + (unat (size packet) + 2) div 3)"
proof -
  let ?E = "encodePacket hdc x0 y0 packet"
  obtain z where hb: "readBytes (HORZRES ?E) (pixel ?E) (x0, y0) 3 =
      bytes_of_u32 (prefix packet) @ bytes_of_u32 (size packet) @ [z]"
    using header_after_encodePacket [OF assms(1,2)] by auto
  have "decodePacket ?E x0 y0 =
    (\<lparr>prefix = PREFIX, size = size packet,
       payload = take (unat (size packet))
         (readBytes (HORZRES ?E) (pixel ?E) (cursor (HORZRES ?E) (x0, y0) 3)
            ((unat (size packet) + 2) div 3))\<rparr>,
     ?E\<lparr>calls := calls ?E @ gets (HORZRES ?E) (x0, y0) (3 + (unat (size packet) + 2) div 3)\<rparr>)"
  proof (rule decodePacket_valid [OF hb _ _ refl refl refl])
    show "u32_of_bytes (bytes_of_u32 (prefix packet) @ bytes_of_u32 (size packet) @ [z]) = PREFIX"
      by (simp only: u32_of_bytes_inverse assms(3))
    show "u32_of_bytes (drop 4 (bytes_of_u32 (prefix packet) @ bytes_of_u32 (size packet) @ [z]))
        = size packet"
      by (simp add: u32_of_bytes_inverse)
  qed
  then show ?thesis by simp
qed

lemma bytes_of_1: "bytes_of_u32 1 = [1, 0, 0, 0]"
  by (simp add: bytes_of_u32_def)

lemma serialize_A:
  "serialize (Packet_of [0x41]) = [0xBE, 0xBA, 0xFE, 0xCA, 1, 0, 0, 0, 0x41]"
  by (simp add: serialize_def Packet_of_def bytes_of_PREFIX bytes_of_1)

lemma u32_1: "u32_of_bytes (1 # 0 # 0 # 0 # rest) = 1"
  by (simp add: u32_of_bytes_def)

lemma writes_A:
  "writes 1920 [0xBE, 0xBA, 0xFE, 0xCA, 1, 0, 0, 0, 0x41] 0 (0, 0) 3 =
    [SetPixelCall 0 0 (RGB 0xBE 0xBA 0xFE), SetPixelCall 1 0 (RGB 0xCA 1 0),
     SetPixelCall 2 0 (RGB 0 0 0x41)]"
  "writes 4 [0xBE, 0xBA, 0xFE, 0xCA, 1, 0, 0, 0, 0x41] 0 (2, 0) 3 =
    [SetPixelCall 2 0 (RGB 0xBE 0xBA 0xFE), SetPixelCall 3 0 (RGB 0xCA 1 0),
     SetPixelCall 0 1 (RGB 0 0 0x41)]"
  by (simp_all add: eval_nat_numeral triple_def)

lemma sent_A:
  "pixel (encodePacket white_screen 0 0 (Packet_of [0x41])) =
     (\<lambda>_. RGB 0xFF 0xFF 0xFF)
      ((0, 0) := RGB 0xBE 0xBA 0xFE, (1, 0) := RGB 0xCA 1 0, (2, 0) := RGB 0 0 0x41)"
  "HORZRES (encodePacket white_screen 0 0 (Packet_of [0x41])) = 1920"
  "calls (encodePacket white_screen 0 0 (Packet_of [0x41])) =
    [SetPixelCall 0 0 (RGB 0xBE 0xBA 0xFE), SetPixelCall 1 0 (RGB 0xCA 1 0),
     SetPixelCall 2 0 (RGB 0 0 0x41)]"
  by (simp_all add: encodePacket_closed serialize_A white_screen_def writes_A)

lemma sent_A_narrow:
  "pixel (encodePacket narrow_screen 2 0 (Packet_of [0x41])) =
     (\<lambda>_. RGB 0xFF 0xFF 0xFF)
      ((2, 0) := RGB 0xBE 0xBA 0xFE, (3, 0) := RGB 0xCA 1 0, (0, 1) := RGB 0 0 0x41)"
  "HORZRES (encodePacket narrow_screen 2 0 (Packet_of [0x41])) = 4"
  "calls (encodePacket narrow_screen 2 0 (Packet_of [0x41])) =
    [SetPixelCall 2 0 (RGB 0xBE 0xBA 0xFE), SetPixelCall 3 0 (RGB 0xCA 1 0),
     SetPixelCall 0 1 (RGB 0 0 0x41)]"
  by (simp_all add: encodePacket_closed serialize_A narrow_screen_def writes_A)

text \<open>
  For a start column on the surface, \<open>0 \<le> x0 < W\<close>: the calls \<open>encodePacket\<close> makes
  are, for \<open>i\<close> from 0 to \<open>\<lceil>N / 3\<rceil> - 1\<close>, \<open>SetPixel\<close> at
  \<open>((x0 + i) mod W, y0 + (x0 + i) div W)\<close> with the bytes \<open>3i\<close>, \<open>3i + 1\<close>,
  \<open>3i + 2\<close> of the buffer (0 past its end); the \<open>i\<close>-th pixel \<open>decodePacket\<close>
  reads is at the coordinate of the same formula; and each coordinate written holds the
  triple written there. How many pixels \<open>decodePacket\<close> reads is another matter:
  \<open>3 + \<lceil>size / 3\<rceil>\<close>, against the \<open>\<lceil>(8 + size) / 3\<rceil>\<close> written.
\<close>

lemma coordinates_on_surface:
  assumes "0 \<le> x0" "x0 < HORZRES hdc"
  shows "calls (encodePacket hdc x0 y0 (Packet_of data)) = calls hdc @
      map (\<lambda>i. SetPixelCall ((x0 + int i) mod HORZRES hdc) (y0 + (x0 + int i) div HORZRES hdc)
                 (triple (serialize (Packet_of data)) (3 * i)))
        [0..<(length (serialize (Packet_of data)) + 2) div 3]
    \<and> calls (snd (decodePacket (encodePacket hdc x0 y0 (Packet_of data)) x0 y0)) =
      calls (encodePacket hdc x0 y0 (Packet_of data)) @
      map (\<lambda>i. GetPixelCall ((x0 + int i) mod HORZRES hdc) (y0 + (x0 + int i) div HORZRES hdc))
        [0..<3 + (unat (size (Packet_of data)) + 2) div 3]
    \<and> map (\<lambda>i. pixel (encodePacket hdc x0 y0 (Packet_of data))
                  ((x0 + int i) mod HORZRES hdc, y0 + (x0 + int i) div HORZRES hdc))
        [0..<(length (serialize (Packet_of data)) + 2) div 3] =
      map (\<lambda>i. triple (serialize (Packet_of data)) (3 * i))
        [0..<(length (serialize (Packet_of data)) + 2) div 3]"
proof (intro conjI)
  show "calls (encodePacket hdc x0 y0 (Packet_of data)) = calls hdc @
      map (\<lambda>i. SetPixelCall ((x0 + int i) mod HORZRES hdc) (y0 + (x0 + int i) div HORZRES hdc)
                 (triple (serialize (Packet_of data)) (3 * i)))
        [0..<(length (serialize (Packet_of data)) + 2) div 3]"
    by (simp add: encodePacket_closed writes_eq_map [OF assms])
next
  have p: "prefix (Packet_of data) = PREFIX" by (simp add: Packet_of_def)
  show "calls (snd (decodePacket (encodePacket hdc x0 y0 (Packet_of data)) x0 y0)) =
      calls (encodePacket hdc x0 y0 (Packet_of data)) @
      map (\<lambda>i. GetPixelCall ((x0 + int i) mod HORZRES hdc) (y0 + (x0 + int i) div HORZRES hdc))
        [0..<3 + (unat (size (Packet_of data)) + 2) div 3]"
    unfolding decodePacket_after_encodePacket_calls [OF assms p] gets_eq_map [OF assms] ..
next
  show "map (\<lambda>i. pixel (encodePacket hdc x0 y0 (Packet_of data))
                  ((x0 + int i) mod HORZRES hdc, y0 + (x0 + int i) div HORZRES hdc))
        [0..<(length (serialize (Packet_of data)) + 2) div 3] =
      map (\<lambda>i. triple (serialize (Packet_of data)) (3 * i))
        [0..<(length (serialize (Packet_of data)) + 2) div 3]"
  proof (rule map_cong [OF refl])
    fix i assume "i \<in> set [0..<(length (serialize (Packet_of data)) + 2) div 3]"
    then have i: "i < (length (serialize (Packet_of data)) + 2) div 3" by simp
    from encodePacket_pixel_at [OF assms i, of y0]
    show "pixel (encodePacket hdc x0 y0 (Packet_of data))
            ((x0 + int i) mod HORZRES hdc, y0 + (x0 + int i) div HORZRES hdc) =
          triple (serialize (Packet_of data)) (3 * i)"
      by (simp only: cursor_formula [OF assms])
  qed
qed

section \<open>The claims\<close>

text \<open>
  C1 (round trip). The claim: a payload of fewer than \<open>2^32\<close> bytes, encoded at a
  start coordinate and decoded from the same coordinate, comes back byte for byte. The
  code does not do that. \<open>encodePacket\<close> packs the 8 header bytes and the payload
  without a gap, so the first payload byte is the third channel of the third pixel;
  \<open>decodePacket\<close> reads three whole pixels for the header, drops the ninth byte and
  starts the payload at the fourth pixel. For the payload \<open>0x41 0x42 0x43\<close> written at
  \<open>(0, 0)\<close> of the white surface the decoded packet has the right prefix and size and
  the payload \<open>0x42 0x43 0x00\<close>.
\<close>

theorem decode_encode_ABC_loses_first_byte:
  "fst (decodePacket (encodePacket white_screen 0 0 (Packet_of [0x41, 0x42, 0x43])) 0 0) =
     \<lparr>prefix = PREFIX, size = 3, payload = [0x42, 0x43, 0x00]\<rparr>
   \<and> payload (fst (decodePacket (encodePacket white_screen 0 0 (Packet_of [0x41, 0x42, 0x43])) 0 0))
       \<noteq> payload (Packet_of [0x41, 0x42, 0x43])"
proof -
  let ?E = "encodePacket white_screen 0 0 (Packet_of [0x41, 0x42, 0x43])"
  have "decodePacket ?E 0 0 =
    (\<lparr>prefix = PREFIX, size = 3, payload = [0x42, 0x43, 0x00]\<rparr>,
     ?E\<lparr>calls := calls ?E @ gets (HORZRES ?E) (0, 0) (3 + 1)\<rparr>)"
  proof (rule decodePacket_valid)
    show "readBytes (HORZRES ?E) (pixel ?E) (0, 0) 3 = [0xBE, 0xBA, 0xFE, 0xCA, 3, 0, 0, 0, 0x41]"
      by (simp add: eval_nat_numeral sent_ABC HORZRES_screens)
    show "u32_of_bytes [0xBE, 0xBA, 0xFE, 0xCA, 3, 0, 0, 0, 0x41] = PREFIX"
      by (rule u32_PREFIX)
    show "u32_of_bytes (drop 4 [0xBE, 0xBA, 0xFE, 0xCA, 3, 0, 0, 0, 0x41]) = 3"
      by (simp add: u32_3)
    show "(unat (3 :: 32 word) + 2) div 3 = 1" by simp
    show "cursor (HORZRES ?E) (0, 0) 3 = (3, 0)" by (simp add: eval_nat_numeral sent_ABC HORZRES_screens)
    show "take (unat (3 :: 32 word)) (readBytes (HORZRES ?E) (pixel ?E) (3, 0) 1) = [0x42, 0x43, 0x00]"
      by (simp add: sent_ABC HORZRES_screens)
  qed
  then show ?thesis by (simp add: Packet_of_def)
qed

text \<open>
  C2 (scenario A), as the code has it. The buffer for the payload \<open>0x41 0x42 0x43\<close> is
  the four bytes of the magic (low byte first: \<open>BE BA FE CA\<close>), the four bytes of the
  length 3 (\<open>03 00 00 00\<close>) and the payload, 11 bytes in all. It is written as four
  pixels: \<open>(BE, BA, FE)\<close>, \<open>(CA, 03, 00)\<close>, \<open>(00, 00, 41)\<close>, \<open>(42, 43, 00)\<close>.
  The header fills two pixels and two channels of the third; the payload is the third
  channel of the third pixel and two channels of the fourth, followed by one zero.
\<close>

theorem encodePacket_ABC_pixels:
  "serialize (Packet_of [0x41, 0x42, 0x43]) =
      bytes_of_u32 PREFIX @ bytes_of_u32 3 @ [0x41, 0x42, 0x43]
   \<and> bytes_of_u32 PREFIX = [0xBE, 0xBA, 0xFE, 0xCA]
   \<and> bytes_of_u32 3 = [3, 0, 0, 0]
   \<and> calls (encodePacket hdc x y (Packet_of [0x41, 0x42, 0x43])) = calls hdc @
       [SetPixelCall (fst (cursor (HORZRES hdc) (x, y) 0)) (snd (cursor (HORZRES hdc) (x, y) 0))
          (RGB 0xBE 0xBA 0xFE),
        SetPixelCall (fst (cursor (HORZRES hdc) (x, y) 1)) (snd (cursor (HORZRES hdc) (x, y) 1))
          (RGB 0xCA 3 0),
        SetPixelCall (fst (cursor (HORZRES hdc) (x, y) 2)) (snd (cursor (HORZRES hdc) (x, y) 2))
          (RGB 0 0 0x41),
        SetPixelCall (fst (cursor (HORZRES hdc) (x, y) 3)) (snd (cursor (HORZRES hdc) (x, y) 3))
          (RGB 0x42 0x43 0)]"
proof -
  have "writes (HORZRES hdc) [0xBE, 0xBA, 0xFE, 0xCA, 3, 0, 0, 0, 0x41, 0x42, 0x43] 0 (x, y) 4 =
       [SetPixelCall (fst (cursor (HORZRES hdc) (x, y) 0)) (snd (cursor (HORZRES hdc) (x, y) 0))
          (RGB 0xBE 0xBA 0xFE),
        SetPixelCall (fst (cursor (HORZRES hdc) (x, y) 1)) (snd (cursor (HORZRES hdc) (x, y) 1))
          (RGB 0xCA 3 0),
        SetPixelCall (fst (cursor (HORZRES hdc) (x, y) 2)) (snd (cursor (HORZRES hdc) (x, y) 2))
          (RGB 0 0 0x41),
        SetPixelCall (fst (cursor (HORZRES hdc) (x, y) 3)) (snd (cursor (HORZRES hdc) (x, y) 3))
          (RGB 0x42 0x43 0)]"
    by (simp add: eval_nat_numeral triple_def del: advance.simps)
  then show ?thesis
    by (simp add: encodePacket_closed serialize_ABC bytes_of_PREFIX bytes_of_3 del: cursor.simps)
qed

text \<open>
  C2 as it is written says that the payload is one pixel \<open>(0x41, 0x42, 0x43)\<close> right
  after two header pixels. On the white surface, from \<open>(0, 0)\<close>, the code writes four
  pixels, not three, and the third one is \<open>(0x00, 0x00, 0x41)\<close>.
\<close>

theorem encodePacket_ABC_not_three_pixels:
  "calls (encodePacket white_screen 0 0 (Packet_of [0x41, 0x42, 0x43])) =
    [SetPixelCall 0 0 (RGB 0xBE 0xBA 0xFE), SetPixelCall 1 0 (RGB 0xCA 3 0),
     SetPixelCall 2 0 (RGB 0 0 0x41), SetPixelCall 3 0 (RGB 0x42 0x43 0)]
   \<and> length (calls (encodePacket white_screen 0 0 (Packet_of [0x41, 0x42, 0x43]))) \<noteq> 3
   \<and> calls (encodePacket white_screen 0 0 (Packet_of [0x41, 0x42, 0x43])) ! 2
       \<noteq> SetPixelCall 2 0 (RGB 0x41 0x42 0x43)"
  by (simp add: calls_ABC)

text \<open>
  C3 (padding invisibility). The claim: the zero bytes that fill the last pixel never
  show up in the decoded payload, and the decoded payload is as long as the length field
  says. The second half holds (see C7). The first half fails through the defect of C1:
  for the payload \<open>0x41 0x42\<close> the last pixel written is \<open>(0x42, 0, 0)\<close>, both zeros
  being padding, and the decoded payload is \<open>0x42 0x00\<close>. The surface was white before,
  so the \<open>0x00\<close> is the padding byte.
\<close>

theorem decode_encode_AB_returns_padding:
  "last (calls (encodePacket white_screen 0 0 (Packet_of [0x41, 0x42]))) = SetPixelCall 3 0 (RGB 0x42 0 0)
   \<and> fst (decodePacket (encodePacket white_screen 0 0 (Packet_of [0x41, 0x42])) 0 0) =
     \<lparr>prefix = PREFIX, size = 2, payload = [0x42, 0x00]\<rparr>"
proof -
  let ?E = "encodePacket white_screen 0 0 (Packet_of [0x41, 0x42])"
  have "decodePacket ?E 0 0 =
    (\<lparr>prefix = PREFIX, size = 2, payload = [0x42, 0x00]\<rparr>,
     ?E\<lparr>calls := calls ?E @ gets (HORZRES ?E) (0, 0) (3 + 1)\<rparr>)"
  proof (rule decodePacket_valid)
    show "readBytes (HORZRES ?E) (pixel ?E) (0, 0) 3 = [0xBE, 0xBA, 0xFE, 0xCA, 2, 0, 0, 0, 0x41]"
      by (simp add: eval_nat_numeral sent_AB HORZRES_screens)
    show "u32_of_bytes [0xBE, 0xBA, 0xFE, 0xCA, 2, 0, 0, 0, 0x41] = PREFIX"
      by (rule u32_PREFIX)
    show "u32_of_bytes (drop 4 [0xBE, 0xBA, 0xFE, 0xCA, 2, 0, 0, 0, 0x41]) = 2"
      by (simp add: u32_2)
    show "(unat (2 :: 32 word) + 2) div 3 = 1" by simp
    show "cursor (HORZRES ?E) (0, 0) 3 = (3, 0)" by (simp add: eval_nat_numeral sent_AB HORZRES_screens)
    show "take (unat (2 :: 32 word)) (readBytes (HORZRES ?E) (pixel ?E) (3, 0) 1) = [0x42, 0x00]"
      by (simp add: sent_AB HORZRES_screens)
  qed
  then show ?thesis by (simp add: sent_AB(3))
qed

text \<open>
  C4 (magic rejection). Whenever the first four bytes of the scan region, read as a
  32-bit value, differ from \<open>0xCAFEBABE\<close>, \<open>decodePacket\<close> returns the
  default-constructed packet, whose prefix is not the sentinel, whatever the other pixels
  hold. It has then called \<open>GetPixel\<close> three times, for the three header pixels, and
  not once for a payload pixel; the pixels are as they were.
\<close>

theorem decodePacket_rejects_wrong_magic:
  assumes "u32_of_bytes
      [GetRValue (pixel hdc (x, y)), GetGValue (pixel hdc (x, y)), GetBValue (pixel hdc (x, y)),
       GetRValue (pixel hdc (advance (HORZRES hdc) (x, y)))] \<noteq> PREFIX"
  shows "fst (decodePacket hdc x y) = Packet_empty
       \<and> prefix (fst (decodePacket hdc x y)) \<noteq> PREFIX
       \<and> calls (snd (decodePacket hdc x y)) = calls hdc @
           [GetPixelCall (fst (cursor (HORZRES hdc) (x, y) 0)) (snd (cursor (HORZRES hdc) (x, y) 0)),
            GetPixelCall (fst (cursor (HORZRES hdc) (x, y) 1)) (snd (cursor (HORZRES hdc) (x, y) 1)),
            GetPixelCall (fst (cursor (HORZRES hdc) (x, y) 2)) (snd (cursor (HORZRES hdc) (x, y) 2))]
       \<and> pixel (snd (decodePacket hdc x y)) = pixel hdc"
proof -
  obtain rest where r: "readBytes (HORZRES hdc) (pixel hdc) (x, y) 3 =
     GetRValue (pixel hdc (x, y)) # GetGValue (pixel hdc (x, y)) # GetBValue (pixel hdc (x, y)) #
     GetRValue (pixel hdc (advance (HORZRES hdc) (x, y))) # rest"
    using readBytes_3_first4 by blast
  have "u32_of_bytes (readBytes (HORZRES hdc) (pixel hdc) (x, y) 3) \<noteq> PREFIX"
    unfolding r u32_of_bytes_first4 [of _ _ _ _ rest] using assms .
  from decodePacket_invalid [OF this] show ?thesis
    by (simp add: gets_3 Packet_empty_def PREFIX_def del: cursor.simps)
qed

theorem decodePacket_rejects_wrong_magic_witness:
  "u32_of_bytes
      [GetRValue (pixel white_screen (0, 0)), GetGValue (pixel white_screen (0, 0)),
       GetBValue (pixel white_screen (0, 0)),
       GetRValue (pixel white_screen (advance (HORZRES white_screen) (0, 0)))] \<noteq> PREFIX
   \<and> fst (decodePacket white_screen 0 0) = Packet_empty
   \<and> calls (snd (decodePacket white_screen 0 0)) =
       [GetPixelCall 0 0, GetPixelCall 1 0, GetPixelCall 2 0]"
proof -
  have h: "u32_of_bytes
      [GetRValue (pixel white_screen (0, 0)), GetGValue (pixel white_screen (0, 0)),
       GetBValue (pixel white_screen (0, 0)),
       GetRValue (pixel white_screen (advance (HORZRES white_screen) (0, 0)))] \<noteq> PREFIX"
    by (simp add: white_screen_def u32_of_bytes_def PREFIX_def)
  from decodePacket_rejects_wrong_magic [OF h] h show ?thesis
    by (simp add: white_screen_def eval_nat_numeral)
qed

text \<open>
  C5 (cursor wrap-around). The claim: the pixel with index \<open>i\<close> is written at
  \<open>((x0 + i) mod W, y0 + (x0 + i) div W)\<close>, and \<open>decodePacket\<close>, reading from the
  same start, visits the same coordinates and recovers the same byte triples. For a
  start column on the surface the first half holds (\<open>coordinates_on_surface\<close>). The
  second half fails through the defect of C1. For the payload \<open>0x41\<close> written at
  \<open>(0, 0)\<close> of the white surface 1920 pixels wide, \<open>encodePacket\<close> writes the three
  pixels \<open>(0, 0)\<close>, \<open>(1, 0)\<close>, \<open>(2, 0)\<close>; \<open>decodePacket\<close> reads four, the
  fourth at \<open>(3, 0)\<close>, which was never written, and the payload it returns is the
  \<open>0xFF\<close> that pixel held before. The same on the surface 4 pixels wide from
  \<open>(2, 0)\<close>, across the end of the row: three pixels written at \<open>(2, 0)\<close>,
  \<open>(3, 0)\<close>, \<open>(0, 1)\<close>, a fourth read at \<open>(1, 1)\<close>, payload \<open>0xFF\<close>.
\<close>

theorem decode_encode_A_reads_unwritten_pixel:
  "calls (encodePacket white_screen 0 0 (Packet_of [0x41])) =
       [SetPixelCall 0 0 (RGB 0xBE 0xBA 0xFE), SetPixelCall 1 0 (RGB 0xCA 1 0),
        SetPixelCall 2 0 (RGB 0 0 0x41)]
   \<and> calls (snd (decodePacket (encodePacket white_screen 0 0 (Packet_of [0x41])) 0 0)) =
       [SetPixelCall 0 0 (RGB 0xBE 0xBA 0xFE), SetPixelCall 1 0 (RGB 0xCA 1 0),
        SetPixelCall 2 0 (RGB 0 0 0x41),
        GetPixelCall 0 0, GetPixelCall 1 0, GetPixelCall 2 0, GetPixelCall 3 0]
   \<and> fst (decodePacket (encodePacket white_screen 0 0 (Packet_of [0x41])) 0 0) =
       \<lparr>prefix = PREFIX, size = 1, payload = [0xFF]\<rparr>
   \<and> calls (encodePacket narrow_screen 2 0 (Packet_of [0x41])) =
       [SetPixelCall 2 0 (RGB 0xBE 0xBA 0xFE), SetPixelCall 3 0 (RGB 0xCA 1 0),
        SetPixelCall 0 1 (RGB 0 0 0x41)]
   \<and> calls (snd (decodePacket (encodePacket narrow_screen 2 0 (Packet_of [0x41])) 2 0)) =
       [SetPixelCall 2 0 (RGB 0xBE 0xBA 0xFE), SetPixelCall 3 0 (RGB 0xCA 1 0),
        SetPixelCall 0 1 (RGB 0 0 0x41),
        GetPixelCall 2 0, GetPixelCall 3 0, GetPixelCall 0 1, GetPixelCall 1 1]
   \<and> fst (decodePacket (encodePacket narrow_screen 2 0 (Packet_of [0x41])) 2 0) =
       \<lparr>prefix = PREFIX, size = 1, payload = [0xFF]\<rparr>"
proof -
  let ?E = "encodePacket white_screen 0 0 (Packet_of [0x41])"
  let ?F = "encodePacket narrow_screen 2 0 (Packet_of [0x41])"
  have E: "decodePacket ?E 0 0 =
    (\<lparr>prefix = PREFIX, size = 1, payload = [0xFF]\<rparr>,
     ?E\<lparr>calls := calls ?E @ gets (HORZRES ?E) (0, 0) (3 + 1)\<rparr>)"
  proof (rule decodePacket_valid)
    show "readBytes (HORZRES ?E) (pixel ?E) (0, 0) 3 = [0xBE, 0xBA, 0xFE, 0xCA, 1, 0, 0, 0, 0x41]"
      by (simp add: eval_nat_numeral sent_A HORZRES_screens)
    show "u32_of_bytes [0xBE, 0xBA, 0xFE, 0xCA, 1, 0, 0, 0, 0x41] = PREFIX"
      by (rule u32_PREFIX)
    show "u32_of_bytes (drop 4 [0xBE, 0xBA, 0xFE, 0xCA, 1, 0, 0, 0, 0x41]) = 1"
      by (simp add: u32_1)
    show "(unat (1 :: 32 word) + 2) div 3 = 1" by simp
    show "cursor (HORZRES ?E) (0, 0) 3 = (3, 0)"
      by (simp add: eval_nat_numeral HORZRES_screens)
    show "take (unat (1 :: 32 word)) (readBytes (HORZRES ?E) (pixel ?E) (3, 0) 1) = [0xFF]"
      by (simp add: sent_A HORZRES_screens)
  qed
  have F: "decodePacket ?F 2 0 =
    (\<lparr>prefix = PREFIX, size = 1, payload = [0xFF]\<rparr>,
     ?F\<lparr>calls := calls ?F @ gets (HORZRES ?F) (2, 0) (3 + 1)\<rparr>)"
  proof (rule decodePacket_valid)
    show "readBytes (HORZRES ?F) (pixel ?F) (2, 0) 3 = [0xBE, 0xBA, 0xFE, 0xCA, 1, 0, 0, 0, 0x41]"
      by (simp add: eval_nat_numeral sent_A_narrow HORZRES_screens)
    show "u32_of_bytes [0xBE, 0xBA, 0xFE, 0xCA, 1, 0, 0, 0, 0x41] = PREFIX"
      by (rule u32_PREFIX)
    show "u32_of_bytes (drop 4 [0xBE, 0xBA, 0xFE, 0xCA, 1, 0, 0, 0, 0x41]) = 1"
      by (simp add: u32_1)
    show "(unat (1 :: 32 word) + 2) div 3 = 1" by simp
    show "cursor (HORZRES ?F) (2, 0) 3 = (1, 1)"
      by (simp add: eval_nat_numeral HORZRES_screens)
    show "take (unat (1 :: 32 word)) (readBytes (HORZRES ?F) (pixel ?F) (1, 1) 1) = [0xFF]"
      by (simp add: sent_A_narrow HORZRES_screens)
  qed
  have gE: "gets 1920 (0, 0) 4 = [GetPixelCall 0 0, GetPixelCall 1 0, GetPixelCall 2 0, GetPixelCall 3 0]"
    by (simp add: eval_nat_numeral)
  have gF: "gets 4 (2, 0) 4 = [GetPixelCall 2 0, GetPixelCall 3 0, GetPixelCall 0 1, GetPixelCall 1 1]"
    by (simp add: eval_nat_numeral)
  show ?thesis
    unfolding E F by (simp add: sent_A(3) sent_A_narrow(3) HORZRES_screens gE gF)
qed

text \<open>
  C6 (oversized payload), as the code has it. There is no rejection: for a payload of any
  length \<open>n\<close>, the packet built from it has \<open>size = n mod 2^32\<close>, and
  \<open>encodePacket\<close> makes \<open>(n + 10) div 3\<close> calls of \<open>SetPixel\<close> (the 8 header bytes
  and the payload, three bytes a pixel, rounded up), at least three.
\<close>

theorem encodePacket_never_rejects:
  "unat (size (Packet_of data)) = length data mod 2 ^ 32
   \<and> calls (encodePacket hdc x y (Packet_of data)) = calls hdc @
       writes (HORZRES hdc) (serialize (Packet_of data)) 0 (x, y) ((length data + 10) div 3)
   \<and> length (calls (encodePacket hdc x y (Packet_of data))) =
       length (calls hdc) + (length data + 10) div 3
   \<and> 3 \<le> (length data + 10) div 3"
proof -
  have n: "(length (serialize (Packet_of data)) + 2) div 3 = (length data + 10) div 3"
    by (simp add: length_serialize Packet_of_def add.commute)
  have "3 * 3 \<le> length data + 10" by simp
  then have "(3 * 3) div 3 \<le> (length data + 10) div 3" by (rule div_le_mono)
  then have g: "3 \<le> (length data + 10) div 3" by simp
  have u: "unat (size (Packet_of data)) = length data mod 2 ^ 32"
    by (simp add: Packet_of_def unat_of_nat)
  show ?thesis unfolding encodePacket_closed n using g u by simp
qed

text \<open>
  C6 as it is written fails for a payload of \<open>2^32\<close> zero bytes: the length field of
  its packet is 0, and \<open>encodePacket\<close> writes 1431655768 pixels, the first of them the
  start of the magic at \<open>(0, 0)\<close>.
\<close>

theorem encodePacket_oversized_payload_written:
  "length (replicate (2 ^ 32) (0 :: byte)) = 2 ^ 32
   \<and> size (Packet_of (replicate (2 ^ 32) 0)) = 0
   \<and> length (calls (encodePacket white_screen 0 0 (Packet_of (replicate (2 ^ 32) 0)))) = 1431655768
   \<and> hd (calls (encodePacket white_screen 0 0 (Packet_of (replicate (2 ^ 32) 0)))) =
       SetPixelCall 0 0 (RGB 0xBE 0xBA 0xFE)"
proof -
  let ?P = "Packet_of (replicate (2 ^ 32) 0)"
  have n: "(length (serialize ?P) + 2) div 3 = Suc 1431655767"
    by (simp add: length_serialize Packet_of_def)
  have t: "triple (serialize ?P) 0 = RGB 0xBE 0xBA 0xFE"
    by (simp add: triple_def serialize_def Packet_of_def bytes_of_PREFIX)
  have c: "calls (encodePacket white_screen 0 0 ?P) =
      writes 1920 (serialize ?P) 0 (0, 0) (Suc 1431655767)"
    unfolding encodePacket_closed n by (simp add: white_screen_def)
  have l: "length (calls (encodePacket white_screen 0 0 ?P)) = 1431655768"
    unfolding c length_writes by simp
  have h: "hd (calls (encodePacket white_screen 0 0 ?P)) = SetPixelCall 0 0 (RGB 0xBE 0xBA 0xFE)"
    unfolding c writes.simps t by simp
  have s: "size ?P = 0" by (simp add: Packet_of_def)
  show ?thesis using l h s by simp
qed

text \<open>
  C7 (frame length invariant), as the code has it. The claim speaks of every packet the
  program constructs; the constructor stores \<open>data.size()\<close> in a 32-bit field, so for a
  payload of \<open>2^32\<close> bytes or more the field holds the length modulo \<open>2^32\<close>. What
  holds: a packet built from a payload of fewer than \<open>2^32\<close> bytes, every packet that
  \<open>decodePacket\<close> returns, and the default-constructed packet have \<open>size\<close> equal to
  the length of \<open>payload\<close>.
\<close>

theorem packet_size_is_payload_length:
  "(length data < 2 ^ 32 \<longrightarrow> unat (size (Packet_of data)) = length (payload (Packet_of data)))
   \<and> unat (size (fst (decodePacket hdc x y))) = length (payload (fst (decodePacket hdc x y)))
   \<and> unat (size Packet_empty) = length (payload Packet_empty)"
proof (intro conjI impI)
  assume "length data < 2 ^ 32"
  then show "unat (size (Packet_of data)) = length (payload (Packet_of data))"
    by (simp add: Packet_of_def unat_of_nat)
next
  show "unat (size (fst (decodePacket hdc x y))) = length (payload (fst (decodePacket hdc x y)))"
    by (rule decodePacket_size_payload)
next
  show "unat (size Packet_empty) = length (payload Packet_empty)"
    by (simp add: Packet_empty_def)
qed

theorem packet_size_is_payload_length_witness:
  "length [0x41 :: byte] < 2 ^ 32
   \<and> unat (size (Packet_of [0x41])) = length (payload (Packet_of [0x41]))
   \<and> unat (size (fst (decodePacket white_screen 0 0)))
       = length (payload (fst (decodePacket white_screen 0 0)))"
  using packet_size_is_payload_length [of "[0x41]" white_screen 0 0] by simp

text \<open>
  C7 as it is written fails for a payload of \<open>2^32\<close> zero bytes: the packet built from
  it has \<open>size = 0\<close>.
\<close>

theorem packet_size_truncated_at_2_32:
  "unat (size (Packet_of (replicate (2 ^ 32) 0)))
     \<noteq> length (payload (Packet_of (replicate (2 ^ 32) 0)))"
  by (simp add: Packet_of_def)

text \<open>
  C8 (invalid role selector). With a device context, every value of \<open>instance\<close> other
  than 1 and 2 makes \<open>main\<close> print the prompt, write \<open>Invalid instance number.\<close> to
  the error stream once, release the device context and return (with exit code 0); no
  loop is entered.
\<close>

theorem main_invalid_instance:
  assumes "instance \<noteq> 1" "instance \<noteq> 2"
  shows "main True instance =
      ([Cout ''Enter instance (1 or 2): '', Cerr ''Invalid instance number.'', ReleaseDC], Some 0)
    \<and> length (filter is_Cerr (fst (main True instance))) = 1
    \<and> filter enters_loop (fst (main True instance)) = []
    \<and> snd (main True instance) \<noteq> None"
  using assms by (simp add: main_def)

theorem main_invalid_instance_witness:
  "(3 :: int) \<noteq> 1 \<and> (3 :: int) \<noteq> 2
   \<and> main True 3 =
      ([Cout ''Enter instance (1 or 2): '', Cerr ''Invalid instance number.'', ReleaseDC], Some 0)
   \<and> filter enters_loop (fst (main True 3)) = []"
  using main_invalid_instance [of 3] by simp

text \<open>
  C10 (decoding leaves the surface unchanged). After \<open>decodePacket\<close> every pixel and
  the horizontal resolution are what they were; the calls it added to the log are
  \<open>GetPixel\<close> calls only; and decoding once more from the same coordinate returns the
  same packet, so a frame that was received is still there and is received again.
\<close>

theorem decodePacket_reads_only:
  "pixel (snd (decodePacket hdc x y)) = pixel hdc
   \<and> HORZRES (snd (decodePacket hdc x y)) = HORZRES hdc
   \<and> take (length (calls hdc)) (calls (snd (decodePacket hdc x y))) = calls hdc
   \<and> list_all is_GetPixel (drop (length (calls hdc)) (calls (snd (decodePacket hdc x y))))
   \<and> fst (decodePacket (snd (decodePacket hdc x y)) x y) = fst (decodePacket hdc x y)"
proof -
  obtain m where m: "snd (decodePacket hdc x y) = hdc\<lparr>calls := calls hdc @ gets (HORZRES hdc) (x, y) m\<rparr>"
    using decodePacket_snd by blast
  show ?thesis unfolding m
    using gets_all_GetPixel [of "HORZRES hdc" "(x, y)" m]
    by (simp add: decodePacket_fst_calls list_all_iff)
qed

end
